theory Spec2Isabelle
  imports Main "HOL-Library.Multiset"
begin

section \<open>AdvancedCache (order-ui/src/hooks/useAdvancedFeatures.ts)\<close>

text \<open>
  The class keeps a JavaScript \<^verbatim>\<open>Map<string, CacheItem<T>>\<close> and a
  \<^verbatim>\<open>Set<string>\<close>. Both iterate in insertion order and hold a key at most
  once, so the map is an association list and the set a list, with the operations of the
  two containers written out. Times are the milliseconds of \<^verbatim>\<open>Date.now()\<close>,
  taken as integers; every method that reads the clock takes the reading as its first
  argument.
\<close>

record CacheConfig =
  maxAge :: int
  maxSize :: int

record 'a CacheItem =
  data :: 'a
  timestamp :: int
  expiresAt :: int
  key :: string

record 'a AdvancedCache =
  cache :: "(string \<times> 'a CacheItem) list"
  accessOrder :: "string list"
  config :: CacheConfig

text \<open>\<^verbatim>\<open>Map.prototype.set\<close>: an existing key keeps its position, a new one goes last.\<close>

fun map_set :: "'k \<Rightarrow> 'v \<Rightarrow> ('k \<times> 'v) list \<Rightarrow> ('k \<times> 'v) list" where
  "map_set k v [] = [(k, v)]"
| "map_set k v ((k', v') # xs) =
     (if k' = k then (k, v) # xs else (k', v') # map_set k v xs)"

definition map_delete :: "'k \<Rightarrow> ('k \<times> 'v) list \<Rightarrow> ('k \<times> 'v) list" where
  "map_delete k xs = filter (\<lambda>e. fst e \<noteq> k) xs"

text \<open>The constructor, with its default configuration of 5 minutes and 100 items.\<close>

definition default_config :: CacheConfig where
  "default_config = \<lparr>maxAge = 300000, maxSize = 100\<rparr>"

definition new_cache :: "CacheConfig \<Rightarrow> 'a AdvancedCache" where
  "new_cache cfg = \<lparr>cache = [], accessOrder = [], config = cfg\<rparr>"

definition delete_cache :: "string \<Rightarrow> 'a AdvancedCache \<Rightarrow> 'a AdvancedCache" where
  "delete_cache k c =
     c\<lparr>cache := map_delete k (cache c), accessOrder := removeAll k (accessOrder c)\<rparr>"

definition clear_cache :: "'a AdvancedCache \<Rightarrow> 'a AdvancedCache" where
  "clear_cache c = c\<lparr>cache := [], accessOrder := []\<rparr>"

text \<open>\<^verbatim>\<open>accessOrder.delete(key); accessOrder.add(key)\<close>: the key moves to the end.\<close>

definition updateAccessOrder :: "string \<Rightarrow> 'a AdvancedCache \<Rightarrow> 'a AdvancedCache" where
  "updateAccessOrder k c = c\<lparr>accessOrder := removeAll k (accessOrder c) @ [k]\<rparr>"

text \<open>
  \<^verbatim>\<open>cleanup\<close> first collects the keys of the entries with \<^verbatim>\<open>now > expiresAt\<close>
  and then deletes them one by one.
\<close>

definition expiredKeys :: "int \<Rightarrow> 'a AdvancedCache \<Rightarrow> string list" where
  "expiredKeys now c = map fst (filter (\<lambda>e. now > expiresAt (snd e)) (cache c))"

definition cleanup :: "int \<Rightarrow> 'a AdvancedCache \<Rightarrow> 'a AdvancedCache" where
  "cleanup now c = foldl (\<lambda>c' k. delete_cache k c') c (expiredKeys now c)"

text \<open>
  \<^verbatim>\<open>customMaxAge || this.config.maxAge\<close>: an omitted argument and the number 0 are
  both falsy and give the configured age.
\<close>

definition effectiveMaxAge :: "int option \<Rightarrow> CacheConfig \<Rightarrow> int" where
  "effectiveMaxAge customMaxAge cfg =
     (case customMaxAge of
        None \<Rightarrow> maxAge cfg
      | Some m \<Rightarrow> if m \<noteq> 0 then m else maxAge cfg)"

text \<open>
  The eviction step of \<^verbatim>\<open>set\<close>: when the map holds \<^verbatim>\<open>maxSize\<close> entries or more,
  the first key of \<^verbatim>\<open>accessOrder\<close> is read; \<^verbatim>\<open>if (lruKey)\<close> lets it through
  when it is neither \<^verbatim>\<open>undefined\<close> (an empty set) nor the empty string.
\<close>

definition evict :: "'a AdvancedCache \<Rightarrow> 'a AdvancedCache" where
  "evict c =
     (if int (length (cache c)) \<ge> maxSize (config c) then
        (case accessOrder c of
           [] \<Rightarrow> c
         | lruKey # _ \<Rightarrow> if lruKey \<noteq> [] then delete_cache lruKey c else c)
      else c)"

definition set_cache ::
  "int \<Rightarrow> string \<Rightarrow> 'a \<Rightarrow> int option \<Rightarrow> 'a AdvancedCache \<Rightarrow> 'a AdvancedCache" where
  "set_cache now k d customMaxAge c =
     (let maxAge' = effectiveMaxAge customMaxAge (config c);
          c1 = cleanup now c;
          c2 = evict c1;
          item = \<lparr>data = d, timestamp = now, expiresAt = now + maxAge', key = k\<rparr>
      in updateAccessOrder k (c2\<lparr>cache := map_set k item (cache c2)\<rparr>))"

text \<open>\<^verbatim>\<open>get\<close> returns the cache it leaves behind and the value, \<open>None\<close> for null.\<close>

definition get_cache :: "int \<Rightarrow> string \<Rightarrow> 'a AdvancedCache \<Rightarrow> 'a AdvancedCache \<times> 'a option" where
  "get_cache now k c =
     (case map_of (cache c) k of
        None \<Rightarrow> (c, None)
      | Some item \<Rightarrow>
          if now > expiresAt item then (delete_cache k c, None)
          else (updateAccessOrder k c, Some (data item)))"

definition has_cache :: "int \<Rightarrow> string \<Rightarrow> 'a AdvancedCache \<Rightarrow> 'a AdvancedCache \<times> bool" where
  "has_cache now k c =
     (case map_of (cache c) k of
        None \<Rightarrow> (c, False)
      | Some item \<Rightarrow>
          if now > expiresAt item then (delete_cache k c, False)
          else (c, True))"

definition getAllKeys :: "int \<Rightarrow> 'a AdvancedCache \<Rightarrow> 'a AdvancedCache \<times> string list" where
  "getAllKeys now c = (let c1 = cleanup now c in (c1, map fst (cache c1)))"

definition size_cache :: "'a AdvancedCache \<Rightarrow> nat" where
  "size_cache c = length (cache c)"

text \<open>
  \<^verbatim>\<open>export\<close> writes each live entry into a plain object with
  \<^verbatim>\<open>data[key] = {data, timestamp, expiresAt}\<close>. For every key but one this creates
  an own property; for the key \<^verbatim>\<open>__proto__\<close> the assignment runs the setter
  inherited from \<^verbatim>\<open>Object.prototype\<close>, which replaces the prototype of the
  object and creates no property, so that \<^verbatim>\<open>Object.entries\<close> of the snapshot has
  no such entry. The snapshot is the list of its own properties. \<^verbatim>\<open>import\<close> adds
  the entries with a non-zero \<^verbatim>\<open>expiresAt\<close> (\<^verbatim>\<open>item.expiresAt && \<dots>\<close>) that
  has not passed; it does not look at \<^verbatim>\<open>maxSize\<close>.
\<close>

record 'a ExportedItem =
  e_data :: 'a
  e_timestamp :: int
  e_expiresAt :: int

definition export_cache :: "int \<Rightarrow> 'a AdvancedCache \<Rightarrow> (string \<times> 'a ExportedItem) list" where
  "export_cache now c =
     map (\<lambda>e. (fst e, \<lparr>e_data = data (snd e), e_timestamp = timestamp (snd e),
                         e_expiresAt = expiresAt (snd e)\<rparr>))
       (filter (\<lambda>e. now \<le> expiresAt (snd e) \<and> fst e \<noteq> ''__proto__'') (cache c))"

definition import_entry :: "int \<Rightarrow> 'a AdvancedCache \<Rightarrow> string \<times> 'a ExportedItem \<Rightarrow> 'a AdvancedCache" where
  "import_entry now c e =
     (if e_expiresAt (snd e) \<noteq> 0 \<and> now \<le> e_expiresAt (snd e) then
        updateAccessOrder (fst e)
          (c\<lparr>cache := map_set (fst e)
                \<lparr>data = e_data (snd e), timestamp = e_timestamp (snd e),
                 expiresAt = e_expiresAt (snd e), key = fst e\<rparr> (cache c)\<rparr>)
      else c)"

definition import_cache :: "int \<Rightarrow> (string \<times> 'a ExportedItem) list \<Rightarrow> 'a AdvancedCache \<Rightarrow> 'a AdvancedCache" where
  "import_cache now d c = foldl (import_entry now) c d"

text \<open>
  Facts of the representation that the class maintains: a \<^verbatim>\<open>Map\<close> holds a key once, and
  \<^verbatim>\<open>set\<close> and \<^verbatim>\<open>import\<close>, the only writers, store under a key an item whose
  \<^verbatim>\<open>key\<close> field is that key. \<open>restored\<close> is the item \<^verbatim>\<open>import\<close> builds from a
  property of the snapshot.
\<close>

definition cache_wf :: "'a AdvancedCache \<Rightarrow> bool" where
  "cache_wf c \<longleftrightarrow> distinct (map fst (cache c)) \<and> (\<forall>e \<in> set (cache c). key (snd e) = fst e)"

definition restored :: "'a ExportedItem \<Rightarrow> string \<Rightarrow> 'a CacheItem" where
  "restored e k = \<lparr>data = e_data e, timestamp = e_timestamp e, expiresAt = e_expiresAt e, key = k\<rparr>"

text \<open>
  The two containers go together: every method that adds or removes a key of the map does
  the same to \<^verbatim>\<open>accessOrder\<close>, and a \<^verbatim>\<open>Set\<close> holds a key once.
\<close>

definition cache_inv :: "'a AdvancedCache \<Rightarrow> bool" where
  "cache_inv c \<longleftrightarrow>
     distinct (map fst (cache c)) \<and> distinct (accessOrder c) \<and>
     set (accessOrder c) = fst ` set (cache c)"

text \<open>
  The public operations as data, each with the clock reading it sees, and their effect on
  the cache; \<^verbatim>\<open>export\<close> changes nothing. \<open>bounded_op\<close> singles out the operations
  other than \<^verbatim>\<open>import\<close> and other than a \<^verbatim>\<open>set\<close> under the empty string, and
  \<open>bounded\<close> is the state they keep: no empty key and at most \<^verbatim>\<open>maxSize\<close> entries.
\<close>

datatype 'a cache_op =
    Set int string 'a "int option"
  | Get int string
  | Has int string
  | Delete string
  | Clear
  | Keys int
  | Snapshot int
  | Restore int "(string \<times> 'a ExportedItem) list"

fun apply_op :: "'a cache_op \<Rightarrow> 'a AdvancedCache \<Rightarrow> 'a AdvancedCache" where
  "apply_op (Set now k d customMaxAge) c = set_cache now k d customMaxAge c"
| "apply_op (Get now k) c = fst (get_cache now k c)"
| "apply_op (Has now k) c = fst (has_cache now k c)"
| "apply_op (Delete k) c = delete_cache k c"
| "apply_op Clear c = clear_cache c"
| "apply_op (Keys now) c = fst (getAllKeys now c)"
| "apply_op (Snapshot now) c = c"
| "apply_op (Restore now d) c = import_cache now d c"

definition run_ops :: "'a cache_op list \<Rightarrow> 'a AdvancedCache \<Rightarrow> 'a AdvancedCache" where
  "run_ops ops c = foldl (\<lambda>c' op. apply_op op c') c ops"

fun bounded_op :: "'a cache_op \<Rightarrow> bool" where
  "bounded_op (Set now k d customMaxAge) = (k \<noteq> [])"
| "bounded_op (Restore now d) = False"
| "bounded_op _ = True"

definition bounded :: "'a AdvancedCache \<Rightarrow> bool" where
  "bounded c \<longleftrightarrow>
     cache_inv c \<and> [] \<notin> set (accessOrder c) \<and> int (size_cache c) \<le> maxSize (config c)"

section \<open>useOptimisticUpdates (order-ui/src/hooks/useAdvancedFeatures.ts)\<close>

text \<open>
  The hook keeps two pieces of React state: the array \<^verbatim>\<open>data\<close> and the map
  \<^verbatim>\<open>optimisticOperations\<close>. The item type \<^verbatim>\<open>T\<close> is not constrained, so
  \<^verbatim>\<open>!originalItem\<close> holds when \<^verbatim>\<open>data.find\<close> found nothing and also when it found
  an item that JavaScript takes for false (\<^verbatim>\<open>0\<close>, \<^verbatim>\<open>''\<close>, \<^verbatim>\<open>false\<close>,
  \<^verbatim>\<open>null\<close>, \<^verbatim>\<open>NaN\<close>); every object is taken for true. The hook functions take
  this test on items as their first argument, \<open>truthy\<close>. The server operation is given
  by what its promise settles to: \<open>Inl error\<close> when it rejects, \<open>Inr result\<close> when it
  resolves.

  Each of the three functions applies its optimistic change, starts
  \<^verbatim>\<open>serverOperation().then(\<dots>).catch(\<dots>)\<close> and returns \<^verbatim>\<open>undefined\<close>; the promise
  chain is neither returned nor awaited. A call is therefore described by four things: the
  state once the chain has settled (with no other state update in between), the
  exception raised to the caller (\<open>raised\<close>; none of the three bodies throws), the
  rejection the dropped chain ends in (\<open>unhandled\<close>; the \<^verbatim>\<open>throw error\<close> at the end of
  each rejection handler), and the number of times the server operation was called.
\<close>

datatype op_kind = op_create | op_update | op_delete

record 't OptimisticOperation =
  op_type :: op_kind
  originalData :: "'t option"
  newData :: "'t option"
  op_timestamp :: int

record 't hook_state =
  hook_data :: "'t list"
  optimisticOperations :: "(string \<times> 't OptimisticOperation) list"

record ('t, 'e) hook_call =
  state :: "'t hook_state"
  raised :: "'e option"
  unhandled :: "'e option"
  serverCalls :: nat

definition replace_by_key :: "('t \<Rightarrow> string) \<Rightarrow> string \<Rightarrow> 't \<Rightarrow> 't list \<Rightarrow> 't list" where
  "replace_by_key keyExtractor k new prev =
     map (\<lambda>item. if keyExtractor item = k then new else item) prev"

definition clear_operation :: "string \<Rightarrow> 't hook_state \<Rightarrow> 't hook_state" where
  "clear_operation k st = st\<lparr>optimisticOperations := map_delete k (optimisticOperations st)\<rparr>"

definition optimisticCreate ::
  "('t \<Rightarrow> string) \<Rightarrow> int \<Rightarrow> 't \<Rightarrow> 'e + 't \<Rightarrow> 't hook_state \<Rightarrow> ('t, 'e) hook_call" where
  "optimisticCreate keyExtractor now newItem serverOperation st =
     (let k = keyExtractor newItem;
          st1 = st\<lparr>hook_data := hook_data st @ [newItem],
                   optimisticOperations := map_set k
                     \<lparr>op_type = op_create, originalData = None, newData = Some newItem,
                      op_timestamp = now\<rparr> (optimisticOperations st)\<rparr>
      in case serverOperation of
           Inr serverResult \<Rightarrow>
             \<lparr>state = clear_operation k
                 (st1\<lparr>hook_data := replace_by_key keyExtractor k serverResult (hook_data st1)\<rparr>),
              raised = None, unhandled = None, serverCalls = 1\<rparr>
         | Inl error \<Rightarrow>
             \<lparr>state = clear_operation k
                 (st1\<lparr>hook_data := filter (\<lambda>item. keyExtractor item \<noteq> k) (hook_data st1)\<rparr>),
              raised = None, unhandled = Some error, serverCalls = 1\<rparr>)"

definition optimisticUpdate ::
  "('t \<Rightarrow> bool) \<Rightarrow> ('t \<Rightarrow> string) \<Rightarrow> int \<Rightarrow> 't \<Rightarrow> 'e + 't \<Rightarrow> 't hook_state
     \<Rightarrow> ('t, 'e) hook_call" where
  "optimisticUpdate truthy keyExtractor now updatedItem serverOperation st =
     (let k = keyExtractor updatedItem
      in case find (\<lambda>item. keyExtractor item = k) (hook_data st) of
           None \<Rightarrow> \<lparr>state = st, raised = None, unhandled = None, serverCalls = 0\<rparr>
         | Some originalItem \<Rightarrow>
             if \<not> truthy originalItem
             then \<lparr>state = st, raised = None, unhandled = None, serverCalls = 0\<rparr>
             else
             (let st1 = st\<lparr>hook_data := replace_by_key keyExtractor k updatedItem (hook_data st),
                           optimisticOperations := map_set k
                             \<lparr>op_type = op_update, originalData = Some originalItem,
                              newData = Some updatedItem, op_timestamp = now\<rparr>
                             (optimisticOperations st)\<rparr>
              in case serverOperation of
                   Inr serverResult \<Rightarrow>
                     \<lparr>state = clear_operation k
                         (st1\<lparr>hook_data := replace_by_key keyExtractor k serverResult (hook_data st1)\<rparr>),
                      raised = None, unhandled = None, serverCalls = 1\<rparr>
                 | Inl error \<Rightarrow>
                     \<lparr>state = clear_operation k
                         (st1\<lparr>hook_data :=
                            (if truthy originalItem
                             then replace_by_key keyExtractor k originalItem (hook_data st1)
                             else hook_data st1)\<rparr>),
                      raised = None, unhandled = Some error, serverCalls = 1\<rparr>))"

definition optimisticDelete ::
  "('t \<Rightarrow> bool) \<Rightarrow> ('t \<Rightarrow> string) \<Rightarrow> int \<Rightarrow> string \<Rightarrow> 'e + unit \<Rightarrow> 't hook_state
     \<Rightarrow> ('t, 'e) hook_call" where
  "optimisticDelete truthy keyExtractor now itemKey serverOperation st =
     (case find (\<lambda>item. keyExtractor item = itemKey) (hook_data st) of
        None \<Rightarrow> \<lparr>state = st, raised = None, unhandled = None, serverCalls = 0\<rparr>
      | Some originalItem \<Rightarrow>
          if \<not> truthy originalItem
          then \<lparr>state = st, raised = None, unhandled = None, serverCalls = 0\<rparr>
          else
          (let st1 = st\<lparr>hook_data := filter (\<lambda>item. keyExtractor item \<noteq> itemKey) (hook_data st),
                        optimisticOperations := map_set itemKey
                          \<lparr>op_type = op_delete, originalData = Some originalItem,
                           newData = None, op_timestamp = now\<rparr>
                          (optimisticOperations st)\<rparr>
           in case serverOperation of
                Inr _ \<Rightarrow>
                  \<lparr>state = clear_operation itemKey st1,
                   raised = None, unhandled = None, serverCalls = 1\<rparr>
              | Inl error \<Rightarrow>
                  \<lparr>state = clear_operation itemKey
                      (st1\<lparr>hook_data := hook_data st1 @ [originalItem]\<rparr>),
                   raised = None, unhandled = Some error, serverCalls = 1\<rparr>))"

definition isOptimistic :: "string \<Rightarrow> 't hook_state \<Rightarrow> bool" where
  "isOptimistic itemKey st \<longleftrightarrow> map_of (optimisticOperations st) itemKey \<noteq> None"

section \<open>WebSocketService and useWebSocket\<close>

text \<open>
  The server (order-service/src/services/websocketService.ts) sends with
  \<^verbatim>\<open>io.to(room).emit(event, payload)\<close>. A broadcast function is the list of its emits,
  in the order the code makes them; \<^verbatim>\<open>uuidv4()\<close> and the ISO time of the notification
  are arguments. Room membership belongs to the socket.io library: a socket is in a room
  after \<^verbatim>\<open>socket.join\<close> until \<^verbatim>\<open>socket.leave\<close> or its disconnection, and an emit to a
  room reaches each of its members once. The handlers of \<^verbatim>\<open>setupSocketHandlers\<close> that
  change membership are \<^verbatim>\<open>authenticate\<close>, \<^verbatim>\<open>join_order_room\<close>,
  \<^verbatim>\<open>leave_order_room\<close> and \<^verbatim>\<open>disconnect\<close>; what they send to the socket itself is
  left out. \<^verbatim>\<open>type.replace('_', ' ')\<close> replaces the first underscore only.

  The client (the \<^verbatim>\<open>useWebSocket\<close> hook, second document of
  order-ui/src/hooks/useAdvancedFeatures.ts) registers one handler per event name.
  \<^verbatim>\<open>slice(0, e)\<close> with a negative \<^verbatim>\<open>e\<close> counts from the end of the array. Toasts
  are kept as values instead of their texts.

  The \<^verbatim>\<open>connect_error\<close> handler is created inside \<^verbatim>\<open>connect\<close>, a
  \<^verbatim>\<open>useCallback\<close> closure over the \<^verbatim>\<open>connectionState\<close> of the render that made it.
  It updates the state through \<^verbatim>\<open>setConnectionState(prev => \<dots>)\<close>, which sees the
  current state, but it decides whether and when to retry from
  \<^verbatim>\<open>connectionState.reconnectAttempts\<close> of the closure, and the timer it sets calls
  the \<^verbatim>\<open>connect\<close> of that same closure. So both functions take the closure's
  \<^verbatim>\<open>connectionState\<close> and the current state \<^verbatim>\<open>prev\<close>, and \<open>connect_failures\<close>
  follows a chain of failed attempts started by one closure. \<open>spec_connect_failures\<close> is
  the reading of the spec, not of the code: every attempt is made by a closure over the
  state of that moment.
\<close>

datatype update_type = Created | Updated | Deleted | StatusChanged

record OrderUpdate =
  orderId :: string
  status :: string
  customerName :: string
  ou_timestamp :: string
  amount :: int
  ou_type :: update_type

datatype severity = Success | Warning | Error | Info

record NotificationMessage =
  n_id :: string
  title :: string
  message :: string
  n_type :: severity
  n_timestamp :: string
  userId :: "string option"
  n_orderId :: "string option"

datatype server_event =
    order_update OrderUpdate
  | order_detail_update OrderUpdate bool
  | notification NotificationMessage
  | bulk_order_update "OrderUpdate list"

record emit =
  room :: string
  event :: server_event

fun type_string :: "update_type \<Rightarrow> string" where
  "type_string Created = ''created''"
| "type_string Updated = ''updated''"
| "type_string Deleted = ''deleted''"
| "type_string StatusChanged = ''status_changed''"

fun replace_first :: "char \<Rightarrow> char \<Rightarrow> string \<Rightarrow> string" where
  "replace_first a b [] = []"
| "replace_first a b (c # cs) = (if c = a then b # cs else c # replace_first a b cs)"

definition toUpperCase :: "string \<Rightarrow> string" where
  "toUpperCase s =
     map (\<lambda>c. case map_of (zip ''abcdefghijklmnopqrstuvwxyz'' ''ABCDEFGHIJKLMNOPQRSTUVWXYZ'') c of
                None \<Rightarrow> c
              | Some C \<Rightarrow> C) s"

definition split_first :: "char \<Rightarrow> string \<Rightarrow> string" where
  "split_first sep s = takeWhile (\<lambda>c. c \<noteq> sep) s"

definition severity_of :: "update_type \<Rightarrow> severity" where
  "severity_of t = (if t = Created then Success else if t = Deleted then Warning else Info)"

definition broadcastNotification :: "NotificationMessage \<Rightarrow> emit list" where
  "broadcastNotification n = [\<lparr>room = ''authenticated_users'', event = notification n\<rparr>]"

definition order_notification :: "string \<Rightarrow> string \<Rightarrow> OrderUpdate \<Rightarrow> NotificationMessage" where
  "order_notification uuid nowIso orderUpdate =
     \<lparr>n_id = uuid,
      title = ''Order '' @ toUpperCase (replace_first CHR ''_'' CHR '' '' (type_string (ou_type orderUpdate))),
      message = ''Order '' @ split_first CHR ''-'' (orderId orderUpdate) @ ''... has been ''
                 @ replace_first CHR ''_'' CHR '' '' (type_string (ou_type orderUpdate)),
      n_type = severity_of (ou_type orderUpdate),
      n_timestamp = nowIso,
      userId = None,
      n_orderId = Some (orderId orderUpdate)\<rparr>"

definition broadcastOrderUpdate :: "string \<Rightarrow> string \<Rightarrow> OrderUpdate \<Rightarrow> emit list" where
  "broadcastOrderUpdate uuid nowIso orderUpdate =
     [\<lparr>room = ''authenticated_users'', event = order_update orderUpdate\<rparr>,
      \<lparr>room = ''order_'' @ orderId orderUpdate, event = order_detail_update orderUpdate True\<rparr>]
     @ broadcastNotification (order_notification uuid nowIso orderUpdate)"

definition broadcastBulkUpdate :: "OrderUpdate list \<Rightarrow> emit list" where
  "broadcastBulkUpdate updates = [\<lparr>room = ''authenticated_users'', event = bulk_order_update updates\<rparr>]"

record server_state =
  rooms :: "(string \<times> string) list"
  connectedUsers :: "string list"
  userSessions :: "(string \<times> string \<times> int) list"

datatype client_event =
    Authenticate string string
  | JoinOrderRoom string
  | LeaveOrderRoom string
  | Disconnect

definition initial_server :: server_state where
  "initial_server = \<lparr>rooms = [], connectedUsers = [], userSessions = []\<rparr>"

definition join :: "string \<Rightarrow> string \<Rightarrow> server_state \<Rightarrow> server_state" where
  "join sid r st =
     (if (sid, r) \<in> set (rooms st) then st else st\<lparr>rooms := rooms st @ [(sid, r)]\<rparr>)"

definition leave :: "string \<Rightarrow> string \<Rightarrow> server_state \<Rightarrow> server_state" where
  "leave sid r st = st\<lparr>rooms := removeAll (sid, r) (rooms st)\<rparr>"

fun on_client_event :: "int \<Rightarrow> string \<Rightarrow> client_event \<Rightarrow> server_state \<Rightarrow> server_state" where
  "on_client_event now sid (Authenticate uid name) st =
     join sid ''authenticated_users''
       (st\<lparr>connectedUsers := removeAll sid (connectedUsers st) @ [sid],
           userSessions := map_set sid (uid, now) (userSessions st)\<rparr>)"
| "on_client_event now sid (JoinOrderRoom oid) st = join sid (''order_'' @ oid) st"
| "on_client_event now sid (LeaveOrderRoom oid) st = leave sid (''order_'' @ oid) st"
| "on_client_event now sid Disconnect st =
     st\<lparr>rooms := filter (\<lambda>p. fst p \<noteq> sid) (rooms st),
        connectedUsers := removeAll sid (connectedUsers st),
        userSessions := map_delete sid (userSessions st)\<rparr>"

definition run_server :: "(int \<times> string \<times> client_event) list \<Rightarrow> server_state \<Rightarrow> server_state" where
  "run_server evs st = foldl (\<lambda>s (now, sid, ev). on_client_event now sid ev s) st evs"

definition members :: "server_state \<Rightarrow> string \<Rightarrow> string list" where
  "members st r = map fst (filter (\<lambda>p. snd p = r) (rooms st))"

definition deliver :: "server_state \<Rightarrow> emit list \<Rightarrow> (string \<times> server_event) list" where
  "deliver st emits = concat (map (\<lambda>e. map (\<lambda>sid. (sid, event e)) (members st (room e))) emits)"

datatype toast =
    OrderToast OrderUpdate
  | NotificationToast severity string
  | BulkToast nat
  | ConnectedToast
  | ConnectFailedToast

record client_state =
  orderUpdates :: "OrderUpdate list"
  notifications :: "NotificationMessage list"
  toasts :: "toast list"
  windowEvents :: "server_event list"

definition js_slice0 :: "int \<Rightarrow> 'a list \<Rightarrow> 'a list" where
  "js_slice0 e xs = (if e < 0 then take (nat (int (length xs) + e)) xs else take (nat e) xs)"

fun on_server_event :: "server_event \<Rightarrow> client_state \<Rightarrow> client_state" where
  "on_server_event (order_update update) st =
     st\<lparr>orderUpdates := update # js_slice0 49 (orderUpdates st),
        toasts := toasts st @ [OrderToast update]\<rparr>"
| "on_server_event (order_detail_update update detailedInfo) st =
     st\<lparr>windowEvents := windowEvents st @ [order_detail_update update detailedInfo]\<rparr>"
| "on_server_event (notification n) st =
     st\<lparr>notifications := n # js_slice0 99 (notifications st),
        toasts := toasts st @ [NotificationToast (n_type n) (message n)]\<rparr>"
| "on_server_event (bulk_order_update updates) st =
     st\<lparr>orderUpdates := updates @ js_slice0 (50 - int (length updates)) (orderUpdates st),
        toasts := toasts st @ [BulkToast (length updates)]\<rparr>"

record ConnectionState =
  isConnected :: bool
  isConnecting :: bool
  conn_error :: "string option"
  reconnectAttempts :: nat

datatype effect = ScheduleRetry nat | FailedToast

definition maxReconnectAttempts :: nat where
  "maxReconnectAttempts = 5"

definition reconnectDelay :: nat where
  "reconnectDelay = 2000"

definition initial_connection :: ConnectionState where
  "initial_connection =
     \<lparr>isConnected = False, isConnecting = False, conn_error = None, reconnectAttempts = 0\<rparr>"

definition connect :: "ConnectionState \<Rightarrow> ConnectionState \<Rightarrow> ConnectionState option" where
  "connect connectionState prev =
     (if isConnecting connectionState \<or> isConnected connectionState then None
      else Some (prev\<lparr>isConnecting := True, conn_error := None\<rparr>))"

definition on_connect_error ::
  "ConnectionState \<Rightarrow> string \<Rightarrow> ConnectionState \<Rightarrow> ConnectionState \<times> effect" where
  "on_connect_error connectionState msg prev =
     (prev\<lparr>isConnecting := False,
           conn_error := Some (if msg = [] then ''Connection failed'' else msg),
           reconnectAttempts := reconnectAttempts prev + 1\<rparr>,
      if reconnectAttempts connectionState < maxReconnectAttempts
      then ScheduleRetry (reconnectDelay * 2 ^ reconnectAttempts connectionState)
      else FailedToast)"

fun connect_failures ::
  "ConnectionState \<Rightarrow> string \<Rightarrow> nat \<Rightarrow> ConnectionState \<Rightarrow> effect list \<times> ConnectionState" where
  "connect_failures connectionState msg 0 st = ([], st)"
| "connect_failures connectionState msg (Suc n) st =
     (case connect connectionState st of
        None \<Rightarrow> ([], st)
      | Some st1 \<Rightarrow>
          (case on_connect_error connectionState msg st1 of
             (st2, ScheduleRetry ms) \<Rightarrow>
               (case connect_failures connectionState msg n st2 of
                  (effects, st3) \<Rightarrow> (ScheduleRetry ms # effects, st3))
           | (st2, FailedToast) \<Rightarrow> ([FailedToast], st2)))"

fun spec_connect_failures :: "string \<Rightarrow> nat \<Rightarrow> ConnectionState \<Rightarrow> effect list \<times> ConnectionState" where
  "spec_connect_failures msg 0 st = ([], st)"
| "spec_connect_failures msg (Suc n) st =
     (case connect st st of
        None \<Rightarrow> ([], st)
      | Some st1 \<Rightarrow>
          (case on_connect_error st msg st1 of
             (st2, ScheduleRetry ms) \<Rightarrow>
               (case spec_connect_failures msg n st2 of
                  (effects, st3) \<Rightarrow> (ScheduleRetry ms # effects, st3))
           | (st2, FailedToast) \<Rightarrow> ([FailedToast], st2)))"

section \<open>Lookup after expiry\<close>

lemma map_of_map_delete_same: "map_of (map_delete k xs) k = None"
  by (induction xs) (auto simp: map_delete_def)

lemma map_delete_idem: "map_delete k (map_delete k xs) = map_delete k xs"
  by (simp add: map_delete_def)

lemma delete_cache_idem: "delete_cache k (delete_cache k c) = delete_cache k c"
  by (simp add: delete_cache_def map_delete_idem)

text \<open>
  C2. A \<^verbatim>\<open>get(k)\<close> at a time strictly after the expiry timestamp recorded for \<open>k\<close>
  returns null from every cache state (so after every sequence of operations), the entry
  is gone from the map and from the recency set afterwards, and both the answer and the
  cache left behind are those of the same \<^verbatim>\<open>get\<close> on the cache from which \<open>k\<close> was
  deleted beforehand.
\<close>

theorem get_after_expiry_absent:
  assumes "map_of (cache c) k = Some item" and "now > expiresAt item"
  shows "snd (get_cache now k c) = None
    \<and> map_of (cache (fst (get_cache now k c))) k = None
    \<and> k \<notin> set (accessOrder (fst (get_cache now k c)))
    \<and> get_cache now k c = get_cache now k (delete_cache k c)"
proof -
  have g: "get_cache now k c = (delete_cache k c, None)"
    using assms by (simp add: get_cache_def)
  have gone: "map_of (cache (delete_cache k c)) k = None"
    by (simp add: delete_cache_def map_of_map_delete_same)
  then have "get_cache now k (delete_cache k c) = (delete_cache k c, None)"
    by (simp add: get_cache_def)
  with g gone show ?thesis
    by (simp add: delete_cache_def)
qed

theorem get_after_expiry_absent_witness:
  "map_of (cache \<lparr>cache = [(''a'', \<lparr>data = (7::nat), timestamp = 0, expiresAt = 10, key = ''a''\<rparr>)],
                  accessOrder = [''a''], config = default_config\<rparr>) ''a''
     = Some \<lparr>data = 7, timestamp = 0, expiresAt = 10, key = ''a''\<rparr>
   \<and> (11::int) > expiresAt \<lparr>data = (7::nat), timestamp = 0, expiresAt = 10, key = ''a''\<rparr>
   \<and> get_cache 11 ''a'' \<lparr>cache = [(''a'', \<lparr>data = (7::nat), timestamp = 0, expiresAt = 10, key = ''a''\<rparr>)],
                  accessOrder = [''a''], config = default_config\<rparr>
     = (\<lparr>cache = [], accessOrder = [], config = default_config\<rparr>, None)"
  using get_after_expiry_absent
    [of "\<lparr>cache = [(''a'', \<lparr>data = (7::nat), timestamp = 0, expiresAt = 10, key = ''a''\<rparr>)],
          accessOrder = [''a''], config = default_config\<rparr>"
        "''a''" "\<lparr>data = 7, timestamp = 0, expiresAt = 10, key = ''a''\<rparr>" 11]
  by (simp add: get_cache_def delete_cache_def map_delete_def)

section \<open>Snapshot and restore\<close>

lemma map_of_map_set: "map_of (map_set k v xs) = (map_of xs)(k \<mapsto> v)"
  by (induction xs) (auto simp: fun_eq_iff)

lemma import_entry_lookup:
  "map_of (cache (import_entry now c e)) k =
     (if fst e = k \<and> e_expiresAt (snd e) \<noteq> 0 \<and> now \<le> e_expiresAt (snd e)
      then Some (restored (snd e) k) else map_of (cache c) k)"
  by (simp add: import_entry_def updateAccessOrder_def map_of_map_set restored_def)

lemma import_cache_lookup:
  assumes "distinct (map fst d)"
  shows "map_of (cache (import_cache now d c)) k =
     (case map_of d k of
        None \<Rightarrow> map_of (cache c) k
      | Some e \<Rightarrow> if e_expiresAt e \<noteq> 0 \<and> now \<le> e_expiresAt e
                  then Some (restored e k) else map_of (cache c) k)"
  using assms
proof (induction d arbitrary: c)
  case Nil
  then show ?case by (simp add: import_cache_def)
next
  case (Cons e d)
  have step: "import_cache now (e # d) c = import_cache now d (import_entry now c e)"
    by (simp add: import_cache_def)
  have d: "distinct (map fst d)" and nin: "fst e \<notin> fst ` set d"
    using Cons.prems by auto
  have "map_of (cache (import_cache now (e # d) c)) k =
        map_of (cache (import_cache now d (import_entry now c e))) k"
    by (simp only: step)
  also have "\<dots> =
     (case map_of d k of
        None \<Rightarrow> map_of (cache (import_entry now c e)) k
      | Some e' \<Rightarrow> if e_expiresAt e' \<noteq> 0 \<and> now \<le> e_expiresAt e'
                  then Some (restored e' k) else map_of (cache (import_entry now c e)) k)"
    by (rule Cons.IH [OF d])
  finally have eq: "map_of (cache (import_cache now (e # d) c)) k =
     (case map_of d k of
        None \<Rightarrow> map_of (cache (import_entry now c e)) k
      | Some e' \<Rightarrow> if e_expiresAt e' \<noteq> 0 \<and> now \<le> e_expiresAt e'
                  then Some (restored e' k) else map_of (cache (import_entry now c e)) k)" .
  show ?case
  proof (cases "fst e = k")
    case True
    then have "map_of d k = None"
      using nin by (simp add: map_of_eq_None_iff)
    with True show ?thesis
      by (simp add: eq import_entry_lookup)
  next
    case False
    then show ?thesis
      by (simp add: eq import_entry_lookup split: option.splits)
  qed
qed

lemma export_cache_keys:
  "map fst (export_cache now c) =
     map fst (filter (\<lambda>e. now \<le> expiresAt (snd e) \<and> fst e \<noteq> ''__proto__'') (cache c))"
  by (simp add: export_cache_def comp_def)

lemma export_cache_distinct:
  "distinct (map fst (cache c)) \<Longrightarrow> distinct (map fst (export_cache now c))"
  by (simp add: export_cache_keys distinct_map_filter)

lemma map_of_map_filter:
  "distinct (map fst xs) \<Longrightarrow>
   map_of (map (\<lambda>e. (fst e, f (snd e))) (filter P xs)) k =
     (case map_of xs k of None \<Rightarrow> None | Some v \<Rightarrow> if P (k, v) then Some (f v) else None)"
proof (induction xs)
  case Nil
  then show ?case by simp
next
  case (Cons x xs)
  then have "fst x \<notin> fst ` set xs" by auto
  then have "map_of xs (fst x) = None" by (simp add: map_of_eq_None_iff)
  with Cons show ?case
    by (cases x) (auto split: option.splits)
qed

lemma export_cache_lookup:
  assumes "distinct (map fst (cache c))"
  shows "map_of (export_cache now c) k =
     (case map_of (cache c) k of
        None \<Rightarrow> None
      | Some item \<Rightarrow>
          if now \<le> expiresAt item \<and> k \<noteq> ''__proto__''
          then Some \<lparr>e_data = data item, e_timestamp = timestamp item, e_expiresAt = expiresAt item\<rparr>
          else None)"
  unfolding export_cache_def
  using map_of_map_filter [OF assms,
      where P = "\<lambda>e. now \<le> expiresAt (snd e) \<and> fst e \<noteq> ''__proto__''"
      and f = "\<lambda>v. \<lparr>e_data = data v, e_timestamp = timestamp v, e_expiresAt = expiresAt v\<rparr>"]
  by (simp split: option.splits)

lemma cache_wf_key: "cache_wf c \<Longrightarrow> map_of (cache c) k = Some item \<Longrightarrow> key item = k"
  by (auto simp: cache_wf_def dest: map_of_SomeD)

text \<open>
  What a restore gives back, key by key, for a well-formed cache and any order \<open>d\<close> in
  which \<^verbatim>\<open>Object.entries\<close> lists the properties of the snapshot taken at \<open>now1\<close>
  (integer-like keys come first): the entry of the cache, with its value and both
  timestamps, when it had not expired at \<open>now1\<close> nor at \<open>now2\<close>, its \<^verbatim>\<open>expiresAt\<close> is
  not 0 and its key is not \<^verbatim>\<open>__proto__\<close>; nothing otherwise.
\<close>

lemma snapshot_restore_lookup:
  assumes wf: "cache_wf c"
    and enum: "distinct (map fst d)" "set d = set (export_cache now1 c)"
  shows "map_of (cache (import_cache now2 d (new_cache cfg))) k =
     (case map_of (cache c) k of
        None \<Rightarrow> None
      | Some item \<Rightarrow>
          if now1 \<le> expiresAt item \<and> now2 \<le> expiresAt item \<and> expiresAt item \<noteq> 0
             \<and> k \<noteq> ''__proto__''
          then Some item else None)"
proof -
  have dc: "distinct (map fst (cache c))"
    using wf by (simp add: cache_wf_def)
  have "map_of d = map_of (export_cache now1 c)"
    using enum export_cache_distinct [OF dc, of now1] by (simp add: map_of_inject_set)
  then have look: "map_of d k = map_of (export_cache now1 c) k"
    by simp
  show ?thesis
  proof (cases "map_of (cache c) k")
    case None
    then show ?thesis
      using look by (simp add: import_cache_lookup [OF enum(1)] export_cache_lookup [OF dc] new_cache_def)
  next
    case (Some item)
    have "key item = k"
      by (rule cache_wf_key [OF wf Some])
    then have "restored \<lparr>e_data = data item, e_timestamp = timestamp item,
        e_expiresAt = expiresAt item\<rparr> k = item"
      by (simp add: restored_def)
    then show ?thesis
      using Some look
      by (auto simp: import_cache_lookup [OF enum(1)] export_cache_lookup [OF dc] new_cache_def)
  qed
qed

text \<open>
  C8. A cache that holds one entry under the key \<^verbatim>\<open>__proto__\<close>, set at time 0 to expire
  at 10, and the clock at 5 for both calls, so no expiry is crossed. \<^verbatim>\<open>get\<close> on the
  cache returns the value. \<^verbatim>\<open>export\<close> assigns \<^verbatim>\<open>data['__proto__']\<close> on a plain object,
  which sets the prototype and creates no property: the snapshot is empty, and the cache
  restored from it does not have the key.
\<close>

theorem snapshot_loses_proto_key:
  "snd (get_cache 5 ''__proto__''
        \<lparr>cache = [(''__proto__'', \<lparr>data = (7::nat), timestamp = 0, expiresAt = 10, key = ''__proto__''\<rparr>)],
         accessOrder = [''__proto__''], config = default_config\<rparr>) = Some 7
   \<and> export_cache 5
        \<lparr>cache = [(''__proto__'', \<lparr>data = (7::nat), timestamp = 0, expiresAt = 10, key = ''__proto__''\<rparr>)],
         accessOrder = [''__proto__''], config = default_config\<rparr> = []
   \<and> snd (get_cache 5 ''__proto__''
       (import_cache 5
         (export_cache 5
            \<lparr>cache = [(''__proto__'', \<lparr>data = (7::nat), timestamp = 0, expiresAt = 10, key = ''__proto__''\<rparr>)],
             accessOrder = [''__proto__''], config = default_config\<rparr>)
         (new_cache default_config))) = None"
  by (simp add: export_cache_def import_cache_def get_cache_def new_cache_def)

section \<open>Capacity and eviction\<close>

lemma foldl_delete_cache:
  "foldl (\<lambda>c' k. delete_cache k c') c ks =
     c\<lparr>cache := filter (\<lambda>e. fst e \<notin> set ks) (cache c),
       accessOrder := filter (\<lambda>a. a \<notin> set ks) (accessOrder c)\<rparr>"
proof (induction ks arbitrary: c)
  case Nil
  show ?case by simp
next
  case (Cons k ks)
  have "foldl (\<lambda>c' k. delete_cache k c') c (k # ks) =
        foldl (\<lambda>c' k. delete_cache k c') (delete_cache k c) ks"
    by simp
  also have "\<dots> = (delete_cache k c)
      \<lparr>cache := filter (\<lambda>e. fst e \<notin> set ks) (cache (delete_cache k c)),
       accessOrder := filter (\<lambda>a. a \<notin> set ks) (accessOrder (delete_cache k c))\<rparr>"
    by (rule Cons.IH)
  also have "\<dots> = c\<lparr>cache := filter (\<lambda>e. fst e \<notin> set (k # ks)) (cache c),
       accessOrder := filter (\<lambda>a. a \<notin> set (k # ks)) (accessOrder c)\<rparr>"
    by (simp add: delete_cache_def map_delete_def removeAll_filter_not_eq conj_commute eq_commute
        cong: filter_cong)
  finally show ?case .
qed

lemma cleanup_eq:
  "cleanup now c =
     c\<lparr>cache := filter (\<lambda>e. fst e \<notin> set (expiredKeys now c)) (cache c),
       accessOrder := filter (\<lambda>k. k \<notin> set (expiredKeys now c)) (accessOrder c)\<rparr>"
  by (simp add: cleanup_def foldl_delete_cache)

lemma config_delete_cache [simp]: "config (delete_cache k c) = config c"
  by (simp add: delete_cache_def)

lemma config_updateAccessOrder [simp]: "config (updateAccessOrder k c) = config c"
  by (simp add: updateAccessOrder_def)

lemma config_cleanup [simp]: "config (cleanup now c) = config c"
  by (simp add: cleanup_eq)

lemma config_evict [simp]: "config (evict c) = config c"
  by (simp add: evict_def split: list.splits)

lemma config_set_cache [simp]: "config (set_cache now k d m c) = config c"
  by (simp add: set_cache_def Let_def updateAccessOrder_def)

lemma cache_inv_filter:
  "cache_inv c \<Longrightarrow>
   cache_inv (c\<lparr>cache := filter (\<lambda>e. fst e \<notin> K) (cache c),
               accessOrder := filter (\<lambda>k. k \<notin> K) (accessOrder c)\<rparr>)"
  by (auto simp: cache_inv_def distinct_map_filter)

lemma cache_inv_delete: "cache_inv c \<Longrightarrow> cache_inv (delete_cache k c)"
  using cache_inv_filter [of c "{k}"]
  by (simp add: delete_cache_def map_delete_def removeAll_filter_not_eq eq_commute)

lemma cache_inv_cleanup: "cache_inv c \<Longrightarrow> cache_inv (cleanup now c)"
  by (simp add: cleanup_eq cache_inv_filter)

lemma cache_inv_evict: "cache_inv c \<Longrightarrow> cache_inv (evict c)"
  by (simp add: evict_def cache_inv_delete split: list.splits)

lemma map_fst_map_set:
  "map fst (map_set k v xs) = (if k \<in> set (map fst xs) then map fst xs else map fst xs @ [k])"
  by (induction xs) (fastforce simp: image_iff)+

lemma keys_map_set: "fst ` set (map_set k v xs) = insert k (fst ` set xs)"
  by (simp add: map_of_map_set flip: dom_map_of_conv_image_fst)

lemma distinct_map_set: "distinct (map fst (map_set k v xs)) = distinct (map fst xs)"
  by (simp add: map_fst_map_set)

lemma cache_inv_touch:
  assumes "cache_inv c"
  shows "cache_inv (updateAccessOrder k (c\<lparr>cache := map_set k v (cache c)\<rparr>))"
  using assms
  by (auto simp: cache_inv_def updateAccessOrder_def keys_map_set distinct_map_set
      distinct_removeAll)

lemma cache_inv_set: "cache_inv c \<Longrightarrow> cache_inv (set_cache now k d m c)"
  by (simp add: set_cache_def Let_def cache_inv_touch cache_inv_evict cache_inv_cleanup)

lemma length_map_delete_le: "length (map_delete k xs) \<le> length xs"
  by (simp add: map_delete_def)

lemma length_map_delete_present:
  "distinct (map fst xs) \<Longrightarrow> k \<in> fst ` set xs \<Longrightarrow> Suc (length (map_delete k xs)) = length xs"
proof (induction xs)
  case Nil
  then show ?case by simp
next
  case (Cons x xs)
  show ?case
  proof (cases "fst x = k")
    case True
    then have "k \<notin> fst ` set xs"
      using Cons.prems(1) by auto
    then have "filter (\<lambda>e. fst e \<noteq> k) xs = xs"
      by (auto simp: filter_id_conv)
    with True show ?thesis
      by (simp add: map_delete_def)
  next
    case False
    then have "k \<in> fst ` set xs"
      using Cons.prems(2) by auto
    with Cons False show ?thesis
      by (simp add: map_delete_def)
  qed
qed

lemma length_map_set_le: "length (map_set k v xs) \<le> Suc (length xs)"
  by (induction xs) auto

lemma size_cleanup_le: "size_cache (cleanup now c) \<le> size_cache c"
  by (simp add: size_cache_def cleanup_eq)

lemma size_delete_le: "size_cache (delete_cache k c) \<le> size_cache c"
  by (simp add: size_cache_def delete_cache_def length_map_delete_le)

lemma evict_full:
  assumes "maxSize (config c) \<le> int (length (cache c))"
    and "accessOrder c = lruKey # rest" and "lruKey \<noteq> []"
  shows "evict c = delete_cache lruKey c"
  using assms by (simp add: evict_def)

lemma size_evict:
  assumes inv: "cache_inv c" and m: "1 \<le> maxSize (config c)"
    and le: "int (size_cache c) \<le> maxSize (config c)"
    and ne: "[] \<notin> set (accessOrder c)"
  shows "int (size_cache (evict c)) < maxSize (config c)"
proof (cases "maxSize (config c) \<le> int (length (cache c))")
  case False
  then show ?thesis
    by (simp add: evict_def size_cache_def)
next
  case True
  with m have "cache c \<noteq> []"
    by auto
  then have "accessOrder c \<noteq> []"
    using inv by (auto simp: cache_inv_def)
  then obtain lruKey rest where ao: "accessOrder c = lruKey # rest"
    by (cases "accessOrder c") auto
  with ne have "lruKey \<noteq> []"
    by auto
  then have ev: "evict c = delete_cache lruKey c"
    using True ao by (simp add: evict_full)
  have "lruKey \<in> fst ` set (cache c)"
    using inv ao by (auto simp: cache_inv_def)
  then have "Suc (length (map_delete lruKey (cache c))) = length (cache c)"
    using inv by (simp add: cache_inv_def length_map_delete_present)
  then show ?thesis
    using le by (simp add: ev size_cache_def delete_cache_def)
qed

lemma accessOrder_cleanup_subset: "set (accessOrder (cleanup now c)) \<subseteq> set (accessOrder c)"
  by (auto simp: cleanup_eq)

lemma accessOrder_evict_subset: "set (accessOrder (evict c)) \<subseteq> set (accessOrder c)"
  by (auto simp: evict_def delete_cache_def split: list.splits)

lemma set_cache_size_le:
  assumes inv: "cache_inv c" and m: "1 \<le> maxSize (config c)"
    and le: "int (size_cache c) \<le> maxSize (config c)"
    and ne: "[] \<notin> set (accessOrder c)"
  shows "int (size_cache (set_cache now k d customMaxAge c)) \<le> maxSize (config c)"
proof -
  let ?c1 = "cleanup now c"
  have "int (size_cache ?c1) \<le> maxSize (config ?c1)"
    using le size_cleanup_le [of now c] by simp
  moreover have "[] \<notin> set (accessOrder ?c1)"
    using ne accessOrder_cleanup_subset [of now c] by auto
  ultimately have "int (size_cache (evict ?c1)) < maxSize (config ?c1)"
    using size_evict [of ?c1] cache_inv_cleanup [OF inv, of now] m by simp
  moreover have "size_cache (set_cache now k d customMaxAge c) \<le> Suc (size_cache (evict ?c1))"
    by (simp add: set_cache_def Let_def size_cache_def updateAccessOrder_def length_map_set_le)
  ultimately show ?thesis
    by simp
qed

lemma bounded_delete: "bounded c \<Longrightarrow> bounded (delete_cache k c)"
  using size_delete_le [of k c]
  by (auto simp: bounded_def cache_inv_delete) (simp add: delete_cache_def)

lemma bounded_cleanup: "bounded c \<Longrightarrow> bounded (cleanup now c)"
  using size_cleanup_le [of now c] accessOrder_cleanup_subset [of now c]
  by (auto simp: bounded_def cache_inv_cleanup)

lemma bounded_set:
  assumes "bounded c" and "1 \<le> maxSize (config c)" and "k \<noteq> []"
  shows "bounded (set_cache now k d customMaxAge c)"
proof -
  have "set (accessOrder (set_cache now k d customMaxAge c)) \<subseteq> insert k (set (accessOrder c))"
    using accessOrder_cleanup_subset [of now c] accessOrder_evict_subset [of "cleanup now c"]
    by (auto simp: set_cache_def Let_def updateAccessOrder_def)
  then have "[] \<notin> set (accessOrder (set_cache now k d customMaxAge c))"
    using assms by (auto simp: bounded_def)
  then show ?thesis
    using assms by (simp add: bounded_def cache_inv_set set_cache_size_le)
qed

lemma bounded_touch:
  assumes "bounded c" and "map_of (cache c) k = Some item"
  shows "bounded (updateAccessOrder k c)"
proof -
  have "k \<in> fst ` set (cache c)"
    using assms(2) by (auto dest: map_of_SomeD simp: rev_image_eqI)
  then have k: "k \<in> set (accessOrder c)"
    using assms(1) by (simp add: bounded_def cache_inv_def)
  show ?thesis
    using assms(1) k
    by (auto simp: bounded_def cache_inv_def updateAccessOrder_def size_cache_def distinct_removeAll)
qed

lemma bounded_apply_op:
  assumes "bounded c" and "1 \<le> maxSize (config c)" and "bounded_op op"
  shows "bounded (apply_op op c) \<and> config (apply_op op c) = config c"
proof (cases op)
  case (Set now k d customMaxAge)
  then show ?thesis
    using assms by (simp add: bounded_set)
next
  case (Get now k)
  then show ?thesis
    using assms
    by (auto simp: get_cache_def bounded_delete bounded_touch split: option.splits)
next
  case (Has now k)
  then show ?thesis
    using assms by (auto simp: has_cache_def bounded_delete split: option.splits)
next
  case (Delete k)
  then show ?thesis
    using assms by (simp add: bounded_delete)
next
  case Clear
  then show ?thesis
    using assms by (simp add: clear_cache_def bounded_def cache_inv_def size_cache_def)
next
  case (Keys now)
  then show ?thesis
    using assms by (simp add: getAllKeys_def Let_def bounded_cleanup)
next
  case (Snapshot now)
  then show ?thesis
    using assms by simp
next
  case (Restore now d)
  then show ?thesis
    using assms by simp
qed

lemma bounded_run_ops:
  assumes "bounded c" and "1 \<le> maxSize (config c)" and "\<forall>op \<in> set ops. bounded_op op"
  shows "bounded (run_ops ops c) \<and> config (run_ops ops c) = config c"
  using assms
proof (induction ops arbitrary: c)
  case Nil
  then show ?case by (simp add: run_ops_def)
next
  case (Cons op ops)
  have step: "run_ops (op # ops) c = run_ops ops (apply_op op c)"
    by (simp add: run_ops_def)
  have "bounded (apply_op op c) \<and> config (apply_op op c) = config c"
    using Cons.prems by (simp add: bounded_apply_op)
  then show ?case
    using Cons.IH [of "apply_op op c"] Cons.prems by (simp add: step)
qed

lemma bounded_new_cache: "0 \<le> maxSize cfg \<Longrightarrow> bounded (new_cache cfg)"
  by (simp add: bounded_def new_cache_def cache_inv_def size_cache_def)

text \<open>
  Without \<^verbatim>\<open>import\<close> and without the empty string as a key, a cache built with
  \<^verbatim>\<open>maxSize\<close> at least 1 never holds more than \<^verbatim>\<open>maxSize\<close> entries.
\<close>

lemma size_le_maxSize_without_import:
  assumes "1 \<le> maxSize cfg" and "\<forall>op \<in> set ops. bounded_op op"
  shows "int (size_cache (run_ops ops (new_cache cfg))) \<le> maxSize cfg"
proof -
  have "bounded (new_cache cfg)"
    using assms(1) by (simp add: bounded_new_cache)
  moreover have "config (new_cache cfg :: 'a AdvancedCache) = cfg"
    by (simp add: new_cache_def)
  ultimately have "bounded (run_ops ops (new_cache cfg)) \<and> config (run_ops ops (new_cache cfg)) = cfg"
    using bounded_run_ops [of "new_cache cfg" ops] assms by simp
  then show ?thesis
    by (auto simp: bounded_def)
qed

text \<open>
  What \<^verbatim>\<open>set\<close> does at capacity when the least recently used key is not the empty
  string: exactly that key is deleted before the new entry goes in.
\<close>

lemma set_cache_evicts_lru:
  assumes inv: "cache_inv c"
    and full: "int (size_cache (cleanup now c)) = maxSize (config c)"
    and lru: "accessOrder (cleanup now c) = lruKey # rest" and ne: "lruKey \<noteq> []"
  shows "fst ` set (cache (set_cache now k d customMaxAge c)) =
           insert k (fst ` set (cache (cleanup now c)) - {lruKey})"
    and "int (size_cache (set_cache now k d customMaxAge c)) \<le> maxSize (config c)"
    and "accessOrder (set_cache now k d customMaxAge c) = removeAll k rest @ [k]"
proof -
  let ?c1 = "cleanup now c"
  have inv1: "cache_inv ?c1"
    by (rule cache_inv_cleanup [OF inv])
  have ev: "evict ?c1 = delete_cache lruKey ?c1"
    using full lru ne by (simp add: evict_full size_cache_def)
  have sc: "set_cache now k d customMaxAge c =
      updateAccessOrder k ((delete_cache lruKey ?c1)
        \<lparr>cache := map_set k \<lparr>data = d, timestamp = now,
            expiresAt = now + effectiveMaxAge customMaxAge (config c), key = k\<rparr>
          (cache (delete_cache lruKey ?c1))\<rparr>)"
    by (simp add: set_cache_def Let_def ev)
  show "fst ` set (cache (set_cache now k d customMaxAge c)) =
      insert k (fst ` set (cache ?c1) - {lruKey})"
    by (auto simp: sc updateAccessOrder_def keys_map_set delete_cache_def map_delete_def)
  have "lruKey \<in> fst ` set (cache ?c1)"
    using inv1 lru by (auto simp: cache_inv_def)
  then have "Suc (length (map_delete lruKey (cache ?c1))) = length (cache ?c1)"
    using inv1 by (simp add: cache_inv_def length_map_delete_present)
  moreover have "length (cache (set_cache now k d customMaxAge c))
      \<le> Suc (length (map_delete lruKey (cache ?c1)))"
    by (simp add: sc updateAccessOrder_def delete_cache_def length_map_set_le)
  ultimately show "int (size_cache (set_cache now k d customMaxAge c)) \<le> maxSize (config c)"
    using full by (simp add: size_cache_def)
  have "lruKey \<notin> set rest"
    using inv1 lru by (auto simp: cache_inv_def)
  then show "accessOrder (set_cache now k d customMaxAge c) = removeAll k rest @ [k]"
    by (simp add: sc updateAccessOrder_def delete_cache_def lru)
qed

text \<open>
  C5. A cache of capacity 1 that was given the key \<^verbatim>\<open>""\<close> and is then given the key
  \<^verbatim>\<open>"b"\<close>: the cache is at capacity after the sweep and the least recently used key
  is the empty string, which \<^verbatim>\<open>if (lruKey)\<close> takes for no key. Nothing is evicted and
  the cache holds two entries.
\<close>

theorem set_cache_empty_lru_key:
  "set_cache 2 ''b'' (8::nat) None
     \<lparr>cache = [('''', \<lparr>data = 7, timestamp = 1, expiresAt = 300001, key = ''''\<rparr>)],
      accessOrder = [''''], config = \<lparr>maxAge = 300000, maxSize = 1\<rparr>\<rparr>
   = \<lparr>cache = [('''', \<lparr>data = 7, timestamp = 1, expiresAt = 300001, key = ''''\<rparr>),
               (''b'', \<lparr>data = 8, timestamp = 2, expiresAt = 300002, key = ''b''\<rparr>)],
      accessOrder = ['''', ''b''], config = \<lparr>maxAge = 300000, maxSize = 1\<rparr>\<rparr>
   \<and> set_cache 1 '''' (7::nat) None (new_cache \<lparr>maxAge = 300000, maxSize = 1\<rparr>)
   = \<lparr>cache = [('''', \<lparr>data = 7, timestamp = 1, expiresAt = 300001, key = ''''\<rparr>)],
      accessOrder = [''''], config = \<lparr>maxAge = 300000, maxSize = 1\<rparr>\<rparr>"
  by (simp add: set_cache_def cleanup_def expiredKeys_def evict_def updateAccessOrder_def
      effectiveMaxAge_def new_cache_def)

text \<open>
  C1. Two caches of capacity 2: the first is given two entries, the second one entry, and
  the snapshot of the first is restored into the second. \<^verbatim>\<open>import\<close> adds both entries
  and the second cache holds three.
\<close>

theorem import_exceeds_maxSize:
  "size_cache
     (import_cache 3
        (export_cache 3
           (set_cache 2 ''b'' (2::nat) None
              (set_cache 1 ''a'' 1 None (new_cache \<lparr>maxAge = 300000, maxSize = 2\<rparr>))))
        (set_cache 1 ''c'' 3 None (new_cache \<lparr>maxAge = 300000, maxSize = 2\<rparr>))) = 3
   \<and> maxSize (config
     (import_cache 3
        (export_cache 3
           (set_cache 2 ''b'' (2::nat) None
              (set_cache 1 ''a'' 1 None (new_cache \<lparr>maxAge = 300000, maxSize = 2\<rparr>))))
        (set_cache 1 ''c'' 3 None (new_cache \<lparr>maxAge = 300000, maxSize = 2\<rparr>)))) = 2"
  by (simp add: set_cache_def cleanup_def expiredKeys_def evict_def updateAccessOrder_def
      effectiveMaxAge_def new_cache_def export_cache_def import_cache_def import_entry_def
      size_cache_def)

section \<open>Optimistic updates: rollback and no-op\<close>

lemma find_key: "find (\<lambda>item. f item = k) xs = Some x \<Longrightarrow> f x = k"
  by (induction xs) (auto split: if_splits)

lemma replace_twice:
  assumes "keyExtractor new = k"
  shows "replace_by_key keyExtractor k old (replace_by_key keyExtractor k new xs) =
         replace_by_key keyExtractor k old xs"
  using assms by (simp add: replace_by_key_def)

lemma find_replace:
  assumes "find (\<lambda>item. keyExtractor item = k) xs = Some x" and "keyExtractor new = k"
  shows "find (\<lambda>item. keyExtractor item = k) (replace_by_key keyExtractor k new xs) = Some new"
  using assms by (induction xs) (auto simp: replace_by_key_def)

lemma replace_unique:
  assumes "distinct (map keyExtractor xs)"
    and "find (\<lambda>item. keyExtractor item = k) xs = Some x"
  shows "replace_by_key keyExtractor k x xs = xs"
  using assms
proof (induction xs)
  case Nil
  then show ?case by simp
next
  case (Cons y ys)
  show ?case
  proof (cases "keyExtractor y = k")
    case True
    then have "x = y"
      using Cons.prems(2) by simp
    moreover have "\<forall>z \<in> set ys. keyExtractor z \<noteq> k"
      using True Cons.prems(1) by (auto simp: image_iff)
    then have "replace_by_key keyExtractor k x ys = ys"
      by (simp add: replace_by_key_def map_idI)
    ultimately show ?thesis
      using True by (simp add: replace_by_key_def)
  next
    case False
    then show ?thesis
      using Cons by (simp add: replace_by_key_def)
  qed
qed

lemma isOptimistic_clear: "\<not> isOptimistic k (clear_operation k st)"
  by (simp add: isOptimistic_def clear_operation_def map_of_map_delete_same)

lemma optimisticUpdate_reject:
  assumes found: "find (\<lambda>item. keyExtractor item = keyExtractor updatedItem) (hook_data st)
                    = Some originalItem"
    and truthy: "truthy originalItem"
  shows "find (\<lambda>item. keyExtractor item = keyExtractor updatedItem)
           (hook_data (state (optimisticUpdate truthy keyExtractor now updatedItem (Inl error) st)))
           = Some originalItem"
    and "length (hook_data (state (optimisticUpdate truthy keyExtractor now updatedItem (Inl error) st)))
           = length (hook_data st)"
    and "\<not> isOptimistic (keyExtractor updatedItem)
           (state (optimisticUpdate truthy keyExtractor now updatedItem (Inl error) st))"
    and "distinct (map keyExtractor (hook_data st)) \<Longrightarrow>
         hook_data (state (optimisticUpdate truthy keyExtractor now updatedItem (Inl error) st))
           = hook_data st"
    and "raised (optimisticUpdate truthy keyExtractor now updatedItem (Inl error) st) = None"
    and "unhandled (optimisticUpdate truthy keyExtractor now updatedItem (Inl error) st) = Some error"
proof -
  let ?k = "keyExtractor updatedItem"
  have ko: "keyExtractor originalItem = ?k"
    using found by (rule find_key)
  have st: "state (optimisticUpdate truthy keyExtractor now updatedItem (Inl error) st) =
      clear_operation ?k
        (st\<lparr>hook_data := replace_by_key keyExtractor ?k originalItem (hook_data st),
            optimisticOperations := map_set ?k
              \<lparr>op_type = op_update, originalData = Some originalItem,
               newData = Some updatedItem, op_timestamp = now\<rparr> (optimisticOperations st)\<rparr>)"
    using found truthy
    by (simp add: optimisticUpdate_def Let_def replace_twice clear_operation_def)
  show "find (\<lambda>item. keyExtractor item = ?k)
      (hook_data (state (optimisticUpdate truthy keyExtractor now updatedItem (Inl error) st)))
      = Some originalItem"
    using find_replace [OF found ko] by (simp add: st clear_operation_def)
  show "length (hook_data (state (optimisticUpdate truthy keyExtractor now updatedItem (Inl error) st)))
      = length (hook_data st)"
    by (simp add: st clear_operation_def replace_by_key_def)
  show "\<not> isOptimistic ?k (state (optimisticUpdate truthy keyExtractor now updatedItem (Inl error) st))"
    by (simp only: st isOptimistic_clear not_False_eq_True)
  show "hook_data (state (optimisticUpdate truthy keyExtractor now updatedItem (Inl error) st))
      = hook_data st" if "distinct (map keyExtractor (hook_data st))"
    using replace_unique [OF that found] by (simp add: st clear_operation_def)
  show "raised (optimisticUpdate truthy keyExtractor now updatedItem (Inl error) st) = None"
    using found truthy by (simp add: optimisticUpdate_def Let_def)
  show "unhandled (optimisticUpdate truthy keyExtractor now updatedItem (Inl error) st) = Some error"
    using found truthy by (simp add: optimisticUpdate_def Let_def)
qed

text \<open>
  C3. The spec's own case: \<^verbatim>\<open>{id: "o1", amount: 10}\<close> is updated optimistically to
  amount 20 and the server call rejects. The item is back at amount 10 and the tracked
  operation is gone, as the claim says. The \<^verbatim>\<open>throw error\<close> of the rejection handler,
  however, rejects a promise that \<^verbatim>\<open>optimisticUpdate\<close> neither returns nor awaits:
  nothing is raised to the caller, who received \<^verbatim>\<open>undefined\<close> before the server call
  settled.
\<close>

theorem optimisticUpdate_reject_not_raised:
  "optimisticUpdate (\<lambda>item. True) fst 0 (''o1'', 20::int) (Inl ''rejected'')
     \<lparr>hook_data = [(''o1'', 10)], optimisticOperations = []\<rparr>
   = \<lparr>state = \<lparr>hook_data = [(''o1'', 10)], optimisticOperations = []\<rparr>,
      raised = None, unhandled = Some ''rejected'', serverCalls = 1\<rparr>"
  by (simp add: optimisticUpdate_def replace_by_key_def clear_operation_def map_delete_def)

lemma find_filter_conv:
  "find P xs = (case filter P xs of [] \<Rightarrow> None | x # _ \<Rightarrow> Some x)"
  by (induction xs) auto

lemma mset_filter_out_append:
  assumes "filter P xs = [x]"
  shows "mset (filter (\<lambda>y. \<not> P y) xs @ [x]) = mset xs"
proof -
  have "mset xs = mset (filter P xs) + mset (filter (\<lambda>y. \<not> P y) xs)"
    by (simp only: mset_filter multiset_partition [symmetric])
  then show ?thesis
    by (simp add: assms)
qed

text \<open>
  C7, as stated, fails on a local state in which two items share the key: the optimistic
  delete removes both, the rollback re-inserts the one that \<^verbatim>\<open>find\<close> returned. It also
  fails on an item that JavaScript takes for false, here the empty string in a list of
  strings that are their own keys: the item is found, \<^verbatim>\<open>!originalItem\<close> holds, and the
  function returns without removing the item or calling the server.
\<close>

theorem optimisticDelete_shared_key_counterexample:
  "find (\<lambda>item. fst item = ''o2'') [(''o1'', 1::int), (''o2'', 2), (''o2'', 3)] = Some (''o2'', 2)
   \<and> hook_data (state (optimisticDelete (\<lambda>item. True) fst 0 ''o2'' (Inl ''rejected'')
        \<lparr>hook_data = [(''o1'', 1::int), (''o2'', 2), (''o2'', 3)], optimisticOperations = []\<rparr>))
     = [(''o1'', 1), (''o2'', 2)]
   \<and> (''o2'', 3) \<notin> set (hook_data (state (optimisticDelete (\<lambda>item. True) fst 0 ''o2'' (Inl ''rejected'')
        \<lparr>hook_data = [(''o1'', 1::int), (''o2'', 2), (''o2'', 3)], optimisticOperations = []\<rparr>)))
   \<and> find (\<lambda>item. item = '''') ['''', ''x''] = Some ''''
   \<and> optimisticDelete (\<lambda>item. item \<noteq> '''') (\<lambda>item. item) 0 '''' (Inl ''rejected'')
        \<lparr>hook_data = ['''', ''x''], optimisticOperations = []\<rparr>
     = \<lparr>state = \<lparr>hook_data = ['''', ''x''], optimisticOperations = []\<rparr>,
        raised = None, unhandled = None, serverCalls = 0\<rparr>"
  by (simp add: optimisticDelete_def clear_operation_def)

text \<open>
  C7, amended. When exactly one item of the local state has the key and JavaScript takes
  that item for true (as it does every object), a rejected \<^verbatim>\<open>optimisticDelete\<close> has
  called the server once and leaves the other items in their order with the removed item
  appended, so the collection has the same members with the same multiplicities as
  before, and the tracked operation for the key is cleared.
\<close>

theorem optimisticDelete_reject_restores:
  assumes "filter (\<lambda>item. keyExtractor item = itemKey) (hook_data st) = [originalItem]"
    and "truthy originalItem"
  shows "hook_data (state (optimisticDelete truthy keyExtractor now itemKey (Inl error) st))
           = filter (\<lambda>item. keyExtractor item \<noteq> itemKey) (hook_data st) @ [originalItem]
    \<and> mset (hook_data (state (optimisticDelete truthy keyExtractor now itemKey (Inl error) st)))
           = mset (hook_data st)
    \<and> \<not> isOptimistic itemKey (state (optimisticDelete truthy keyExtractor now itemKey (Inl error) st))
    \<and> serverCalls (optimisticDelete truthy keyExtractor now itemKey (Inl error) st) = 1"
proof -
  have found: "find (\<lambda>item. keyExtractor item = itemKey) (hook_data st) = Some originalItem"
    by (simp add: find_filter_conv assms(1))
  have st: "state (optimisticDelete truthy keyExtractor now itemKey (Inl error) st) =
      clear_operation itemKey
        (st\<lparr>hook_data := filter (\<lambda>item. keyExtractor item \<noteq> itemKey) (hook_data st) @ [originalItem],
            optimisticOperations := map_set itemKey
              \<lparr>op_type = op_delete, originalData = Some originalItem, newData = None,
               op_timestamp = now\<rparr> (optimisticOperations st)\<rparr>)"
    using found assms(2) by (simp add: optimisticDelete_def Let_def clear_operation_def)
  have d: "hook_data (state (optimisticDelete truthy keyExtractor now itemKey (Inl error) st))
      = filter (\<lambda>item. keyExtractor item \<noteq> itemKey) (hook_data st) @ [originalItem]"
    by (simp add: st clear_operation_def)
  moreover have "mset (filter (\<lambda>item. keyExtractor item \<noteq> itemKey) (hook_data st) @ [originalItem])
      = mset (hook_data st)"
    by (rule mset_filter_out_append [OF assms(1)])
  moreover have "\<not> isOptimistic itemKey
      (state (optimisticDelete truthy keyExtractor now itemKey (Inl error) st))"
    by (simp only: st isOptimistic_clear not_False_eq_True)
  moreover have "serverCalls (optimisticDelete truthy keyExtractor now itemKey (Inl error) st) = 1"
    using found assms(2) by (simp add: optimisticDelete_def Let_def)
  ultimately show ?thesis
    by simp
qed

theorem optimisticDelete_reject_restores_witness:
  "filter (\<lambda>item. fst item = ''o2'') [(''o1'', 1::int), (''o2'', 2), (''o3'', 3)] = [(''o2'', 2)]
   \<and> hook_data (state (optimisticDelete (\<lambda>item. True) fst 0 ''o2'' (Inl ''rejected'')
        \<lparr>hook_data = [(''o1'', 1::int), (''o2'', 2), (''o3'', 3)], optimisticOperations = []\<rparr>))
     = [(''o1'', 1), (''o3'', 3), (''o2'', 2)]
   \<and> mset (hook_data (state (optimisticDelete (\<lambda>item. True) fst 0 ''o2'' (Inl ''rejected'')
        \<lparr>hook_data = [(''o1'', 1::int), (''o2'', 2), (''o3'', 3)], optimisticOperations = []\<rparr>)))
     = mset [(''o1'', 1), (''o2'', 2), (''o3'', 3)]
   \<and> serverCalls (optimisticDelete (\<lambda>item. True) fst 0 ''o2'' (Inl ''rejected'')
        \<lparr>hook_data = [(''o1'', 1::int), (''o2'', 2), (''o3'', 3)], optimisticOperations = []\<rparr>) = 1"
  using optimisticDelete_reject_restores
    [where keyExtractor = fst and itemKey = "''o2''"
       and st = "\<lparr>hook_data = [(''o1'', 1::int), (''o2'', 2), (''o3'', 3)], optimisticOperations = []\<rparr>"
       and originalItem = "(''o2'', 2)" and truthy = "\<lambda>item. True" and now = 0
       and error = "''rejected''"]
  by simp

text \<open>
  C10. When no item of the local state has the key, \<^verbatim>\<open>optimisticUpdate\<close> and
  \<^verbatim>\<open>optimisticDelete\<close> return at once: the state (items and tracked operations) is the
  one they were given, and the server operation is not called, whatever it would have
  answered and whichever items JavaScript takes for true.
\<close>

theorem optimistic_noop_when_absent:
  assumes "k \<notin> keyExtractor ` set (hook_data st)" and "keyExtractor updatedItem = k"
  shows "optimisticUpdate truthy keyExtractor now updatedItem serverOperation st
           = \<lparr>state = st, raised = None, unhandled = None, serverCalls = 0\<rparr>
    \<and> optimisticDelete truthy keyExtractor now k serverOperation' st
           = \<lparr>state = st, raised = None, unhandled = None, serverCalls = 0\<rparr>"
proof -
  have "find (\<lambda>item. keyExtractor item = k) (hook_data st) = None"
    using assms(1) by (auto simp: find_None_iff)
  then show ?thesis
    using assms(2) by (simp add: optimisticUpdate_def optimisticDelete_def)
qed

theorem optimistic_noop_when_absent_witness:
  "''o9'' \<notin> fst ` set (hook_data \<lparr>hook_data = [(''o1'', 10::int)], optimisticOperations = []\<rparr>)
   \<and> fst (''o9'', 20::int) = ''o9''
   \<and> optimisticUpdate (\<lambda>item. True) fst 0 (''o9'', 20::int) (Inl ''rejected'')
        \<lparr>hook_data = [(''o1'', 10)], optimisticOperations = []\<rparr>
      = \<lparr>state = \<lparr>hook_data = [(''o1'', 10)], optimisticOperations = []\<rparr>,
         raised = None, unhandled = None, serverCalls = 0\<rparr>
   \<and> optimisticDelete (\<lambda>item. True) fst 0 ''o9'' (Inl ''rejected'')
        \<lparr>hook_data = [(''o1'', 10::int)], optimisticOperations = []\<rparr>
      = \<lparr>state = \<lparr>hook_data = [(''o1'', 10)], optimisticOperations = []\<rparr>,
         raised = None, unhandled = None, serverCalls = 0\<rparr>"
  using optimistic_noop_when_absent
    [where k = "''o9''" and keyExtractor = fst
       and st = "\<lparr>hook_data = [(''o1'', 10::int)], optimisticOperations = []\<rparr>"
       and updatedItem = "(''o9'', 20)" and truthy = "\<lambda>item. True" and now = 0
       and serverOperation = "Inl ''rejected''" and serverOperation' = "Inl ''rejected''"]
  by simp

section \<open>Fan-out of an order update\<close>

lemma rooms_join: "set (rooms (join sid r st)) = insert (sid, r) (set (rooms st))"
  by (auto simp: join_def)

lemma order_room_not_authenticated: "''order_'' @ oid \<noteq> ''authenticated_users''"
  by simp

lemma joined_only_by_request:
  assumes "(sid, ''order_'' @ oid) \<in> set (rooms (run_server evs st))"
  shows "(sid, ''order_'' @ oid) \<in> set (rooms st)
         \<or> (\<exists>now. (now, sid, JoinOrderRoom oid) \<in> set evs)"
  using assms
proof (induction evs arbitrary: st)
  case Nil
  then show ?case by (simp add: run_server_def)
next
  case (Cons e evs)
  obtain now s ev where e: "e = (now, s, ev)"
    by (cases e) auto
  have step: "run_server (e # evs) st = run_server evs (on_client_event now s ev st)"
    by (simp add: run_server_def e)
  from Cons.prems have "(sid, ''order_'' @ oid) \<in> set (rooms (on_client_event now s ev st))
      \<or> (\<exists>now. (now, sid, JoinOrderRoom oid) \<in> set evs)"
    unfolding step by (rule Cons.IH)
  then show ?case
  proof
    assume later: "\<exists>now. (now, sid, JoinOrderRoom oid) \<in> set evs"
    then show ?thesis by auto
  next
    assume here: "(sid, ''order_'' @ oid) \<in> set (rooms (on_client_event now s ev st))"
    show ?thesis
    proof (cases ev)
      case (Authenticate uid name)
      with here show ?thesis
        by (simp add: rooms_join)
    next
      case (JoinOrderRoom oid')
      with here e show ?thesis
        by (auto simp: rooms_join)
    next
      case (LeaveOrderRoom oid')
      with here show ?thesis
        by (auto simp: leave_def)
    next
      case Disconnect
      with here show ?thesis
        by auto
    qed
  qed
qed

lemma deliver_Cons:
  "deliver st (e # es) = map (\<lambda>sid. (sid, event e)) (members st (room e)) @ deliver st es"
  by (simp add: deliver_def)

lemma deliver_Nil: "deliver st [] = []"
  by (simp add: deliver_def)

lemma deliver_broadcastOrderUpdate:
  "deliver st (broadcastOrderUpdate uuid nowIso u) =
     map (\<lambda>sid. (sid, order_update u)) (members st ''authenticated_users'')
     @ map (\<lambda>sid. (sid, order_detail_update u True)) (members st (''order_'' @ orderId u))
     @ map (\<lambda>sid. (sid, notification (order_notification uuid nowIso u)))
         (members st ''authenticated_users'')"
  by (simp add: broadcastOrderUpdate_def broadcastNotification_def deliver_Cons deliver_Nil)

lemma in_room_iff: "sid \<in> set (members st r) \<longleftrightarrow> (sid, r) \<in> set (rooms st)"
  by (force simp: members_def)

text \<open>
  C6. For an order update \<open>u\<close>, \<^verbatim>\<open>broadcastOrderUpdate\<close> reaches the connections as
  follows. The update itself arrives as \<^verbatim>\<open>order_update\<close> at exactly the members of
  \<^verbatim>\<open>authenticated_users\<close>, unchanged. The copy with \<^verbatim>\<open>detailedInfo: true\<close> arrives as
  \<^verbatim>\<open>order_detail_update\<close> at exactly the members of the room \<^verbatim>\<open>order_<orderId>\<close>. One
  notification is emitted, to \<^verbatim>\<open>authenticated_users\<close>, and its type is success for a
  created order, warning for a deleted one and info otherwise. A connection that never
  sent \<^verbatim>\<open>join_order_room\<close> for this order id receives no \<^verbatim>\<open>order_detail_update\<close>.
\<close>

theorem broadcastOrderUpdate_fanout:
  "((sid, order_update u') \<in> set (deliver st (broadcastOrderUpdate uuid nowIso u))
      \<longleftrightarrow> sid \<in> set (members st ''authenticated_users'') \<and> u' = u)
   \<and> ((sid, order_detail_update u' flag) \<in> set (deliver st (broadcastOrderUpdate uuid nowIso u))
      \<longleftrightarrow> sid \<in> set (members st (''order_'' @ orderId u)) \<and> u' = u \<and> flag)
   \<and> ((sid, notification n) \<in> set (deliver st (broadcastOrderUpdate uuid nowIso u))
      \<longleftrightarrow> sid \<in> set (members st ''authenticated_users'') \<and> n = order_notification uuid nowIso u)
   \<and> filter (\<lambda>e. case event e of notification _ \<Rightarrow> True | _ \<Rightarrow> False)
        (broadcastOrderUpdate uuid nowIso u)
      = [\<lparr>room = ''authenticated_users'', event = notification (order_notification uuid nowIso u)\<rparr>]
   \<and> n_type (order_notification uuid nowIso u)
      = (case ou_type u of Created \<Rightarrow> Success | Deleted \<Rightarrow> Warning | _ \<Rightarrow> Info)
   \<and> n_orderId (order_notification uuid nowIso u) = Some (orderId u)
   \<and> (st = run_server evs initial_server
        \<and> (\<forall>now. (now, sid, JoinOrderRoom (orderId u)) \<notin> set evs)
      \<longrightarrow> (sid, order_detail_update u' flag) \<notin> set (deliver st (broadcastOrderUpdate uuid nowIso u)))"
proof -
  let ?out = "deliver st (broadcastOrderUpdate uuid nowIso u)"
  have plain: "(sid, order_update u') \<in> set ?out
      \<longleftrightarrow> sid \<in> set (members st ''authenticated_users'') \<and> u' = u"
    by (auto simp: deliver_broadcastOrderUpdate)
  have detail: "(sid, order_detail_update u' flag) \<in> set ?out
      \<longleftrightarrow> sid \<in> set (members st (''order_'' @ orderId u)) \<and> u' = u \<and> flag"
    by (auto simp: deliver_broadcastOrderUpdate)
  have notif: "(sid, notification n) \<in> set ?out
      \<longleftrightarrow> sid \<in> set (members st ''authenticated_users'') \<and> n = order_notification uuid nowIso u"
    by (auto simp: deliver_broadcastOrderUpdate)
  have one: "filter (\<lambda>e. case event e of notification _ \<Rightarrow> True | _ \<Rightarrow> False)
        (broadcastOrderUpdate uuid nowIso u)
      = [\<lparr>room = ''authenticated_users'', event = notification (order_notification uuid nowIso u)\<rparr>]"
    by (simp add: broadcastOrderUpdate_def broadcastNotification_def)
  have sev: "n_type (order_notification uuid nowIso u)
      = (case ou_type u of Created \<Rightarrow> Success | Deleted \<Rightarrow> Warning | _ \<Rightarrow> Info)"
    by (cases "ou_type u") (simp_all add: order_notification_def severity_of_def)
  have oid: "n_orderId (order_notification uuid nowIso u) = Some (orderId u)"
    by (simp add: order_notification_def)
  have never: "(sid, order_detail_update u' flag) \<notin> set ?out"
    if st: "st = run_server evs initial_server"
      and nojoin: "\<forall>now. (now, sid, JoinOrderRoom (orderId u)) \<notin> set evs"
  proof
    assume "(sid, order_detail_update u' flag) \<in> set ?out"
    then have "(sid, ''order_'' @ orderId u) \<in> set (rooms (run_server evs initial_server))"
      using detail st by (simp add: in_room_iff)
    then have "(sid, ''order_'' @ orderId u) \<in> set (rooms initial_server)
        \<or> (\<exists>now. (now, sid, JoinOrderRoom (orderId u)) \<in> set evs)"
      by (rule joined_only_by_request)
    then show False
      using nojoin by (simp add: initial_server_def)
  qed
  from plain detail notif one sev oid never show ?thesis
    by blast
qed

theorem broadcastOrderUpdate_fanout_witness:
  "(\<forall>now. (now, ''s2'', JoinOrderRoom ''o3'')
       \<notin> set [(0, ''s1'', Authenticate ''u1'' ''Ann''), (1, ''s1'', JoinOrderRoom ''o3''),
              (2, ''s2'', Authenticate ''u2'' ''Bob'')])
   \<and> deliver
       (run_server [(0, ''s1'', Authenticate ''u1'' ''Ann''), (1, ''s1'', JoinOrderRoom ''o3''),
                    (2, ''s2'', Authenticate ''u2'' ''Bob'')] initial_server)
       (broadcastOrderUpdate ''id1'' ''t1''
          \<lparr>orderId = ''o3'', status = ''shipped'', customerName = ''Ann'', ou_timestamp = ''t0'',
           amount = 5, ou_type = Deleted\<rparr>)
     = [(''s1'', order_update \<lparr>orderId = ''o3'', status = ''shipped'', customerName = ''Ann'',
            ou_timestamp = ''t0'', amount = 5, ou_type = Deleted\<rparr>),
        (''s2'', order_update \<lparr>orderId = ''o3'', status = ''shipped'', customerName = ''Ann'',
            ou_timestamp = ''t0'', amount = 5, ou_type = Deleted\<rparr>),
        (''s1'', order_detail_update \<lparr>orderId = ''o3'', status = ''shipped'', customerName = ''Ann'',
            ou_timestamp = ''t0'', amount = 5, ou_type = Deleted\<rparr> True),
        (''s1'', notification \<lparr>n_id = ''id1'', title = ''Order DELETED'',
            message = ''Order o3... has been deleted'', n_type = Warning, n_timestamp = ''t1'',
            userId = None, n_orderId = Some ''o3''\<rparr>),
        (''s2'', notification \<lparr>n_id = ''id1'', title = ''Order DELETED'',
            message = ''Order o3... has been deleted'', n_type = Warning, n_timestamp = ''t1'',
            userId = None, n_orderId = Some ''o3''\<rparr>)]"
  using broadcastOrderUpdate_fanout
    [of "''s2''"
        "\<lparr>orderId = ''o3'', status = ''shipped'', customerName = ''Ann'', ou_timestamp = ''t0'',
           amount = 5, ou_type = Deleted\<rparr>"
        "run_server [(0, ''s1'', Authenticate ''u1'' ''Ann''), (1, ''s1'', JoinOrderRoom ''o3''),
                    (2, ''s2'', Authenticate ''u2'' ''Bob'')] initial_server"
        "''id1''" "''t1''"
        "\<lparr>orderId = ''o3'', status = ''shipped'', customerName = ''Ann'', ou_timestamp = ''t0'',
           amount = 5, ou_type = Deleted\<rparr>"
        True
        "\<lparr>n_id = ''id1'', title = ''Order DELETED'',
            message = ''Order o3... has been deleted'', n_type = Warning, n_timestamp = ''t1'',
            userId = None, n_orderId = Some ''o3''\<rparr>"
        "[(0, ''s1'', Authenticate ''u1'' ''Ann''), (1, ''s1'', JoinOrderRoom ''o3''),
              (2, ''s2'', Authenticate ''u2'' ''Bob'')]"]
  by (simp add: deliver_def broadcastOrderUpdate_def broadcastNotification_def order_notification_def
      members_def run_server_def initial_server_def join_def severity_of_def toUpperCase_def
      split_first_def)

section \<open>Bulk updates\<close>

text \<open>
  C9. A bulk update of any number of orders is one emit: a single
  \<^verbatim>\<open>bulk_order_update\<close> event to \<^verbatim>\<open>authenticated_users\<close> that carries the whole
  array, so each member of the room receives exactly that one event and no
  \<^verbatim>\<open>order_update\<close>. The client has a handler of its own for it, which puts the whole
  array in front of the kept updates and shows one toast with the count; for an array of
  one update this differs from what the \<^verbatim>\<open>order_update\<close> handler does.
\<close>

theorem broadcastBulkUpdate_single_push:
  "broadcastBulkUpdate updates
     = [\<lparr>room = ''authenticated_users'', event = bulk_order_update updates\<rparr>]
   \<and> length (broadcastBulkUpdate updates) = 1
   \<and> deliver st (broadcastBulkUpdate updates)
     = map (\<lambda>sid. (sid, bulk_order_update updates)) (members st ''authenticated_users'')
   \<and> on_server_event (bulk_order_update updates) cs
     = cs\<lparr>orderUpdates := updates @ js_slice0 (50 - int (length updates)) (orderUpdates cs),
          toasts := toasts cs @ [BulkToast (length updates)]\<rparr>
   \<and> toasts (on_server_event (bulk_order_update updates) cs)
     = toasts cs @ [BulkToast (length updates)]
   \<and> take (length updates) (orderUpdates (on_server_event (bulk_order_update updates) cs)) = updates
   \<and> on_server_event (bulk_order_update [u]) cs \<noteq> on_server_event (order_update u) cs"
proof -
  have "toasts (on_server_event (bulk_order_update [u]) cs)
      \<noteq> toasts (on_server_event (order_update u) cs)"
    by simp
  then have "on_server_event (bulk_order_update [u]) cs \<noteq> on_server_event (order_update u) cs"
    by metis
  then show ?thesis
    by (simp add: broadcastBulkUpdate_def deliver_Cons deliver_Nil)
qed

theorem broadcastBulkUpdate_single_push_witness:
  "deliver
     (run_server [(0, ''s1'', Authenticate ''u1'' ''Ann''), (1, ''s2'', JoinOrderRoom ''o3'')]
        initial_server)
     (broadcastBulkUpdate
        [\<lparr>orderId = ''o1'', status = ''paid'', customerName = ''Ann'', ou_timestamp = ''t0'',
          amount = 5, ou_type = Updated\<rparr>,
         \<lparr>orderId = ''o2'', status = ''paid'', customerName = ''Bob'', ou_timestamp = ''t0'',
          amount = 7, ou_type = Updated\<rparr>])
   = [(''s1'', bulk_order_update
        [\<lparr>orderId = ''o1'', status = ''paid'', customerName = ''Ann'', ou_timestamp = ''t0'',
          amount = 5, ou_type = Updated\<rparr>,
         \<lparr>orderId = ''o2'', status = ''paid'', customerName = ''Bob'', ou_timestamp = ''t0'',
          amount = 7, ou_type = Updated\<rparr>])]
   \<and> toasts (on_server_event (bulk_order_update
        [\<lparr>orderId = ''o1'', status = ''paid'', customerName = ''Ann'', ou_timestamp = ''t0'',
          amount = 5, ou_type = Updated\<rparr>,
         \<lparr>orderId = ''o2'', status = ''paid'', customerName = ''Bob'', ou_timestamp = ''t0'',
          amount = 7, ou_type = Updated\<rparr>])
        \<lparr>orderUpdates = [], notifications = [], toasts = [], windowEvents = []\<rparr>)
   = [BulkToast 2]"
  using broadcastBulkUpdate_single_push
    [of "[\<lparr>orderId = ''o1'', status = ''paid'', customerName = ''Ann'', ou_timestamp = ''t0'',
          amount = 5, ou_type = Updated\<rparr>,
         \<lparr>orderId = ''o2'', status = ''paid'', customerName = ''Bob'', ou_timestamp = ''t0'',
          amount = 7, ou_type = Updated\<rparr>]"
        "run_server [(0, ''s1'', Authenticate ''u1'' ''Ann''), (1, ''s2'', JoinOrderRoom ''o3'')]
           initial_server"
        "\<lparr>orderUpdates = [], notifications = [], toasts = [], windowEvents = []\<rparr>"]
  by (simp add: members_def run_server_def initial_server_def join_def deliver_def
      broadcastBulkUpdate_def)

section \<open>Reconnection after connect errors\<close>

text \<open>
  A chain of failed attempts started by one closure: as long as that closure's own counter
  is below the ceiling, every failure schedules a retry after the same delay, however
  many failures there are, while the counter of the state goes up by one each time.
\<close>

lemma connect_failures_stale:
  assumes "\<not> isConnecting connectionState" and "\<not> isConnected connectionState"
    and "reconnectAttempts connectionState < maxReconnectAttempts"
  shows "fst (connect_failures connectionState msg n st)
           = replicate n (ScheduleRetry (reconnectDelay * 2 ^ reconnectAttempts connectionState))
       \<and> reconnectAttempts (snd (connect_failures connectionState msg n st))
           = reconnectAttempts st + n"
  using assms
proof (induction n arbitrary: st)
  case 0
  then show ?case by simp
next
  case (Suc n)
  let ?st2 = "st\<lparr>isConnecting := False,
      conn_error := Some (if msg = [] then ''Connection failed'' else msg),
      reconnectAttempts := reconnectAttempts st + 1\<rparr>"
  have step: "connect_failures connectionState msg (Suc n) st =
      (ScheduleRetry (reconnectDelay * 2 ^ reconnectAttempts connectionState)
         # fst (connect_failures connectionState msg n ?st2),
       snd (connect_failures connectionState msg n ?st2))"
    using Suc.prems by (simp add: connect_def on_connect_error_def split: prod.splits)
  show ?case
    unfolding step using Suc.IH [OF Suc.prems, of ?st2] by simp
qed

lemma connect_failures_numeral:
  "connect_failures connectionState msg (numeral k) st =
     (case connect connectionState st of
        None \<Rightarrow> ([], st)
      | Some st1 \<Rightarrow>
          (case on_connect_error connectionState msg st1 of
             (st2, ScheduleRetry ms) \<Rightarrow>
               (case connect_failures connectionState msg (pred_numeral k) st2 of
                  (effects, st3) \<Rightarrow> (ScheduleRetry ms # effects, st3))
           | (st2, FailedToast) \<Rightarrow> ([FailedToast], st2)))"
  by (simp add: numeral_eq_Suc)

lemma spec_connect_failures_numeral:
  "spec_connect_failures msg (numeral k) st =
     (case connect st st of
        None \<Rightarrow> ([], st)
      | Some st1 \<Rightarrow>
          (case on_connect_error st msg st1 of
             (st2, ScheduleRetry ms) \<Rightarrow>
               (case spec_connect_failures msg (pred_numeral k) st2 of
                  (effects, st3) \<Rightarrow> (ScheduleRetry ms # effects, st3))
           | (st2, FailedToast) \<Rightarrow> ([FailedToast], st2)))"
  by (simp add: numeral_eq_Suc)

text \<open>
  C4. The hook connects on mount with the \<^verbatim>\<open>connect\<close> of the first render, whose
  \<^verbatim>\<open>connectionState\<close> is the initial one. Six connection failures in a row schedule six
  retries, each after 2000 ms, and show no failure toast, while the counter of the state
  goes to 6.
\<close>

theorem connect_failures_constant_delay:
  "connect_failures initial_connection ''timeout'' 6 initial_connection
   = ([ScheduleRetry 2000, ScheduleRetry 2000, ScheduleRetry 2000,
       ScheduleRetry 2000, ScheduleRetry 2000, ScheduleRetry 2000],
      \<lparr>isConnected = False, isConnecting = False, conn_error = Some ''timeout'',
       reconnectAttempts = 6\<rparr>)"
  by (simp add: connect_failures_numeral connect_def
      on_connect_error_def initial_connection_def maxReconnectAttempts_def reconnectDelay_def)


text \<open>
  The sequence of the spec (2, 4, 8, 16 and 32 seconds, then the failure toast at the
  sixth failure) is what the same handler gives when every attempt is made by a closure
  over the state of that moment.
\<close>

lemma spec_connect_failures_backoff:
  "fst (spec_connect_failures ''timeout'' 6 initial_connection)
   = [ScheduleRetry 2000, ScheduleRetry 4000, ScheduleRetry 8000,
      ScheduleRetry 16000, ScheduleRetry 32000, FailedToast]"
  by (simp add: spec_connect_failures_numeral connect_def
      on_connect_error_def initial_connection_def maxReconnectAttempts_def reconnectDelay_def)

end
